theory Spec2Isabelle
  imports Main
begin

section \<open>Characters and the string primitives of the source\<close>

text \<open>
  The text handled by \<^verbatim>\<open>phone_number_finder.py\<close> is a Python \<^verbatim>\<open>str\<close>. It is modelled as a
  \<^typ>\<open>string\<close>; a \<^typ>\<open>char\<close> stands for one of the code points 0..255. On these code points
  \<^verbatim>\<open>\s\<close> and \<^verbatim>\<open>str.strip\<close> use the same whitespace test, \<^verbatim>\<open>\d\<close> accepts the ten ASCII digits,
  and lower-casing maps A..Z and the upper-case letters of the range 192..222 (except 215).
\<close>

definition isspace :: "char \<Rightarrow> bool" where
  "isspace c = (let n = (of_char c :: nat) in
     (9 \<le> n \<and> n \<le> 13) \<or> (28 \<le> n \<and> n \<le> 32) \<or> n = 133 \<or> n = 160)"

definition isdigit :: "char \<Rightarrow> bool" where
  "isdigit c = (let n = (of_char c :: nat) in 48 \<le> n \<and> n \<le> 57)"

definition lower_char :: "char \<Rightarrow> char" where
  "lower_char c = (let n = (of_char c :: nat) in
     if (65 \<le> n \<and> n \<le> 90) \<or> (192 \<le> n \<and> n \<le> 222 \<and> n \<noteq> 215)
     then char_of (n + 32) else c)"

text \<open>\<^verbatim>\<open>str.lower()\<close>, \<^verbatim>\<open>str.strip()\<close>, \<^verbatim>\<open>str.startswith(p)\<close> and \<^verbatim>\<open>sub in s\<close>.\<close>

definition lower :: "string \<Rightarrow> string" where
  "lower s = map lower_char s"

definition strip :: "string \<Rightarrow> string" where
  "strip s = rev (dropWhile isspace (rev (dropWhile isspace s)))"

definition startswith :: "string \<Rightarrow> string \<Rightarrow> bool" where
  "startswith s p = (take (length p) s = p)"

fun contains :: "string \<Rightarrow> string \<Rightarrow> bool" where
  "contains sub [] = (sub = [])"
| "contains sub (c # cs) = (startswith (c # cs) sub \<or> contains sub cs)"

section \<open>The fragment of Python's \<^verbatim>\<open>re\<close> that the source uses\<close>

text \<open>
  Every pattern of the source is a sequence of pieces: a literal string, an alternation of
  literal strings (\<^verbatim>\<open>(?:fon|tel|...)\<close>), or a greedy repetition \<^verbatim>\<open>{m,n}\<close>, \<^verbatim>\<open>*\<close>, \<^verbatim>\<open>+\<close>, \<^verbatim>\<open>?\<close> of a
  single-character class. A class is \<^verbatim>\<open>\d\<close>, \<^verbatim>\<open>\s\<close>, one character, a set \<^verbatim>\<open>[...]\<close> of these
  or a negated set \<^verbatim>\<open>[^...]\<close>.
\<close>

datatype item = Ch char | Digit | Space

datatype atom = Is item | OneOf "item list" | NoneOf "item list"

datatype piece = Str string | Alts "string list" | Rep atom nat "nat option"

type_synonym regex = "piece list"

text \<open>The flag \<open>ic\<close> is \<^verbatim>\<open>re.IGNORECASE\<close>: it affects literal characters only.\<close>

definition ceq :: "bool \<Rightarrow> char \<Rightarrow> char \<Rightarrow> bool" where
  "ceq ic a c = (if ic then lower_char a = lower_char c else a = c)"

fun imatch :: "bool \<Rightarrow> item \<Rightarrow> char \<Rightarrow> bool" where
  "imatch ic (Ch a) c = ceq ic a c"
| "imatch ic Digit c = isdigit c"
| "imatch ic Space c = isspace c"

fun amatch :: "bool \<Rightarrow> atom \<Rightarrow> char \<Rightarrow> bool" where
  "amatch ic (Is i) c = imatch ic i c"
| "amatch ic (OneOf is) c = list_ex (\<lambda>i. imatch ic i c) is"
| "amatch ic (NoneOf is) c = (\<not> list_ex (\<lambda>i. imatch ic i c) is)"

fun starts :: "bool \<Rightarrow> string \<Rightarrow> string \<Rightarrow> bool" where
  "starts ic [] s = True"
| "starts ic (a # w) [] = False"
| "starts ic (a # w) (c # cs) = (ceq ic a c \<and> starts ic w cs)"

text \<open>
  A matcher returns the texts that may remain after a match at the start of its argument,
  in the order in which the backtracking engine of \<^verbatim>\<open>re\<close> tries them: a greedy repetition
  tries the longest run first, an alternation its branches from left to right. The first
  element is the match \<^verbatim>\<open>re\<close> reports.
\<close>

fun rep :: "bool \<Rightarrow> atom \<Rightarrow> nat \<Rightarrow> nat option \<Rightarrow> string \<Rightarrow> string list" where
  "rep ic a m mx [] = (if m = 0 then [[]] else [])"
| "rep ic a m mx (c # cs) =
     (if mx \<noteq> Some 0 \<and> amatch ic a c
      then rep ic a (m - 1) (map_option (\<lambda>n. n - 1) mx) cs else [])
     @ (if m = 0 then [c # cs] else [])"

fun pmatch :: "bool \<Rightarrow> piece \<Rightarrow> string \<Rightarrow> string list" where
  "pmatch ic (Str w) s = (if starts ic w s then [drop (length w) s] else [])"
| "pmatch ic (Alts ws) s = map (\<lambda>w. drop (length w) s) (filter (\<lambda>w. starts ic w s) ws)"
| "pmatch ic (Rep a m mx) s = rep ic a m mx s"

fun rmatch :: "bool \<Rightarrow> regex \<Rightarrow> string \<Rightarrow> string list" where
  "rmatch ic [] s = [s]"
| "rmatch ic (p # ps) s = concat (map (rmatch ic ps) (pmatch ic p s))"

text \<open>\<^verbatim>\<open>re.match(pattern, s)\<close> as a truth value, and the length of the match it finds.\<close>

definition re_match :: "bool \<Rightarrow> regex \<Rightarrow> string \<Rightarrow> bool" where
  "re_match ic r s = (rmatch ic r s \<noteq> [])"

definition match_len :: "bool \<Rightarrow> regex \<Rightarrow> string \<Rightarrow> nat option" where
  "match_len ic r s = (case rmatch ic r s of [] \<Rightarrow> None | t # _ \<Rightarrow> Some (length s - length t))"

text \<open>
  \<^verbatim>\<open>re.sub(pattern, repl, s)\<close> and \<^verbatim>\<open>re.findall(pattern, s)\<close> scan from left to right; after a
  match the scan resumes behind it. The counter \<open>k\<close> is the number of characters still
  covered by the last match. No pattern of the source matches the empty string
  (\<open>match_len_positive\<close> and \<open>source_patterns_consume\<close> below), so an empty match never
  occurs; the scan treats it as no match.
\<close>

fun sub_from :: "bool \<Rightarrow> regex \<Rightarrow> string \<Rightarrow> nat \<Rightarrow> string \<Rightarrow> string" where
  "sub_from ic r repl k [] = []"
| "sub_from ic r repl k (c # cs) =
     (if 0 < k then sub_from ic r repl (k - 1) cs
      else case match_len ic r (c # cs) of
             Some (Suc n) \<Rightarrow> repl @ sub_from ic r repl n cs
           | _ \<Rightarrow> c # sub_from ic r repl 0 cs)"

definition re_sub :: "bool \<Rightarrow> regex \<Rightarrow> string \<Rightarrow> string \<Rightarrow> string" where
  "re_sub ic r repl s = sub_from ic r repl 0 s"

fun findall_from :: "bool \<Rightarrow> regex \<Rightarrow> nat \<Rightarrow> string \<Rightarrow> string list" where
  "findall_from ic r k [] = []"
| "findall_from ic r k (c # cs) =
     (if 0 < k then findall_from ic r (k - 1) cs
      else case match_len ic r (c # cs) of
             Some (Suc n) \<Rightarrow> take (Suc n) (c # cs) # findall_from ic r n cs
           | _ \<Rightarrow> findall_from ic r 0 cs)"

definition re_findall :: "bool \<Rightarrow> regex \<Rightarrow> string \<Rightarrow> string list" where
  "re_findall ic r s = findall_from ic r 0 s"

text \<open>
  A pattern \<^verbatim>\<open>head(group)\<close> with one capturing group at its end: \<^verbatim>\<open>re.findall\<close> returns the text
  of the group. The first pair in backtracking order gives the length of the whole match and
  the captured text.
\<close>

definition group_match :: "bool \<Rightarrow> regex \<Rightarrow> regex \<Rightarrow> string \<Rightarrow> (nat \<times> string) option" where
  "group_match ic hd_r grp s =
     (case concat (map (\<lambda>t. map (\<lambda>u. (t, u)) (rmatch ic grp t)) (rmatch ic hd_r s)) of
        [] \<Rightarrow> None
      | (t, u) # _ \<Rightarrow> Some (length s - length u, take (length t - length u) t))"

fun findall_group_from :: "bool \<Rightarrow> regex \<Rightarrow> regex \<Rightarrow> nat \<Rightarrow> string \<Rightarrow> string list" where
  "findall_group_from ic h g k [] = []"
| "findall_group_from ic h g k (c # cs) =
     (if 0 < k then findall_group_from ic h g (k - 1) cs
      else case group_match ic h g (c # cs) of
             Some (Suc n, cap) \<Rightarrow> cap # findall_group_from ic h g n cs
           | _ \<Rightarrow> findall_group_from ic h g 0 cs)"

definition re_findall_group :: "bool \<Rightarrow> regex \<Rightarrow> regex \<Rightarrow> string \<Rightarrow> string list" where
  "re_findall_group ic h g s = findall_group_from ic h g 0 s"

section \<open>The pattern library: \<^verbatim>\<open>self.phone_patterns\<close>\<close>

abbreviation sep :: atom where "sep \<equiv> OneOf [Space, Ch CHR ''-'']"
abbreviation dig :: atom where "dig \<equiv> Is Digit"
abbreviation spc :: atom where "spc \<equiv> Is Space"

abbreviation star :: "atom \<Rightarrow> piece" where "star a \<equiv> Rep a 0 None"
abbreviation plus :: "atom \<Rightarrow> piece" where "plus a \<equiv> Rep a 1 None"
abbreviation opt :: "atom \<Rightarrow> piece" where "opt a \<equiv> Rep a 0 (Some 1)"
abbreviation rng :: "atom \<Rightarrow> nat \<Rightarrow> nat \<Rightarrow> piece" where "rng a m n \<equiv> Rep a m (Some n)"

definition phone_patterns :: "regex list" where
  "phone_patterns = [
     [Str ''+49'', star sep, rng dig 2 4, star sep, rng dig 2 4, star sep, rng dig 1 4,
        star sep, rng dig 1 4],
     [Str ''+49'', star spc, Str ''('', rng dig 2 4, Str '')'', star spc, rng dig 2 4,
        star sep, rng dig 1 4, star sep, rng dig 1 4],
     [Str ''+49'', star spc, rng dig 2 4, star spc, rng dig 2 4, star spc, rng dig 1 4,
        star sep, rng dig 1 4],
     [Str ''0'', rng dig 2 4, star sep, rng dig 2 4, star sep, rng dig 1 4, star sep,
        rng dig 1 4],
     [Str ''0'', rng dig 2 4, star spc, rng dig 2 4, star spc, rng dig 1 4, star sep,
        rng dig 1 4],
     [Str ''0'', rng dig 2 4, star sep, rng dig 2 4, star sep, rng dig 1 4],
     [Str ''+49'', star spc, Str ''('', rng dig 2 4, Str '')'', star spc, rng dig 2 4,
        star spc, rng dig 1 4],
     [Str ''('', rng dig 2 4, Str '')'', star spc, rng dig 2 4, star spc, rng dig 1 4],
     [rng dig 2 4, star spc, Str ''/'', star spc, rng dig 2 4, star spc, rng dig 1 4],
     [Str ''0800'', star sep, rng dig 3 4, star sep, rng dig 3 4],
     [Str ''+49'', star spc, rng dig 2 4, star spc, rng dig 3 4, star spc, rng dig 3 4],
     [Str ''0'', rng dig 2 4, star spc, rng dig 3 4, star spc, rng dig 3 4],
     [Str ''+49'', star sep, rng dig 2 4, star sep, rng dig 3 4, star sep, rng dig 3 4],
     [Str ''0'', rng dig 2 4, star sep, rng dig 3 4, star sep, rng dig 3 4],
     [Str ''01'', Rep (OneOf [Ch CHR ''5'', Ch CHR ''6'', Ch CHR ''7'']) 1 (Some 1),
        Rep dig 1 (Some 1), star sep, rng dig 3 4, star sep, rng dig 3 4]]"

section \<open>\<^verbatim>\<open>clean_phone_number\<close>\<close>

definition label_pattern :: regex where
  "label_pattern = [Alts [''tel:'', ''telefon:'', ''phone:'', ''tel.'', ''telefon.'', ''phone.'']]"

definition trunk_pattern :: regex where
  "trunk_pattern = [Str ''+49'', star spc, Str ''(0)'']"

definition ws_pattern :: regex where
  "ws_pattern = [plus spc]"

definition strip_labels :: "string \<Rightarrow> string" where
  "strip_labels s = re_sub True label_pattern [] s"

definition collapse_trunk :: "string \<Rightarrow> string" where
  "collapse_trunk s = re_sub False trunk_pattern ''+49'' s"

definition collapse_ws :: "string \<Rightarrow> string" where
  "collapse_ws s = re_sub False ws_pattern '' '' s"

definition validates :: "string \<Rightarrow> bool" where
  "validates s = list_ex (\<lambda>p. re_match False p s) phone_patterns"

text \<open>
  The argument is \<^verbatim>\<open>None\<close> or a string; \<^verbatim>\<open>not phone\<close> holds of \<^verbatim>\<open>None\<close> and of the empty string.
  The loop over the patterns returns the cleaned text at the first pattern that matches.
\<close>

definition clean_phone_number :: "string option \<Rightarrow> string option" where
  "clean_phone_number phone =
     (case phone of
        None \<Rightarrow> None
      | Some p \<Rightarrow>
          if p = [] then None
          else let p1 = strip_labels p;
                   p2 = strip p1;
                   p3 = collapse_trunk p2;
                   p4 = collapse_ws p3
               in if validates p4 then Some p4 else None)"

section \<open>\<^verbatim>\<open>extract_phone_from_text\<close>\<close>

text \<open>
  The three \<^verbatim>\<open>prefix_patterns\<close>, each a head followed by the capturing group
  \<^verbatim>\<open>([+\d\s\-\(\)]+)\<close>. They are used with \<^verbatim>\<open>re.IGNORECASE\<close>.
\<close>

definition phone_run :: regex where
  "phone_run = [plus (OneOf [Ch CHR ''+'', Digit, Space, Ch CHR ''-'', Ch CHR ''('', Ch CHR '')''])]"

definition prefix_patterns :: "regex list" where
  "prefix_patterns = [
     [Alts [''fon'', ''tel'', ''telefon'', ''phone'', ''tel.'', ''telefon.'', ''phone.''],
        star spc, opt (OneOf [Ch CHR '':'', Ch CHR ''.'']), star spc],
     [Alts [''Telefon'', ''Telefonnummer'', ''Tel.'', ''Fon.''],
        star spc, opt (OneOf [Ch CHR '':'', Ch CHR ''.'']), star spc],
     [Alts [''Mietverwaltung'', ''WEG-Verwaltung''],
        star spc, Str '':'', star spc, Str ''Tel.'', star spc]]"

definition non_phone_char :: regex where
  "non_phone_char =
     [Rep (NoneOf [Digit, Space, Ch CHR ''-'', Ch CHR ''('', Ch CHR '')'', Ch CHR ''+'']) 1 (Some 1)]"

text \<open>The first loop: the captured runs, cleaned of foreign characters and stripped.\<close>

definition labeled_candidates :: "string \<Rightarrow> string list" where
  "labeled_candidates text =
     concat (map (\<lambda>h. filter (\<lambda>phone. phone \<noteq> [])
                    (map (\<lambda>m. strip (re_sub False non_phone_char [] m))
                       (re_findall_group True h phone_run text)))
               prefix_patterns)"

text \<open>The second loop: every match of every pattern of the library.\<close>

definition structural_candidates :: "string \<Rightarrow> string list" where
  "structural_candidates text = concat (map (\<lambda>p. re_findall False p text) phone_patterns)"

text \<open>
  The third loop, one step: \<open>phone\<close> is the candidate, \<open>valid_phones\<close> the list built so far.
  The test for \<^verbatim>\<open>fax\<close> reads the candidate itself.
\<close>

definition keep_valid :: "string list \<Rightarrow> string \<Rightarrow> string list" where
  "keep_valid valid_phones phone =
     (case clean_phone_number (Some phone) of
        None \<Rightarrow> valid_phones
      | Some cleaned \<Rightarrow>
          if cleaned \<noteq> [] \<and> cleaned \<notin> set valid_phones
          then (if \<not> contains ''fax'' (lower phone) then valid_phones @ [cleaned]
                else valid_phones)
          else valid_phones)"

definition extract_phone_from_text :: "string \<Rightarrow> string list" where
  "extract_phone_from_text text =
     foldl keep_valid [] (labeled_candidates text @ structural_candidates text)"

section \<open>\<^verbatim>\<open>select_best_phone\<close>\<close>

datatype py_error = IndexError | AttributeError

text \<open>
  \<^verbatim>\<open>list(set(phones))\<close> lists the distinct candidates in the iteration order of a Python set,
  which the program does not control. The order is the parameter \<open>order\<close>; \<open>enumerates\<close>
  says what every such order satisfies.
\<close>

definition enumerates :: "(string list \<Rightarrow> string list) \<Rightarrow> string list \<Rightarrow> bool" where
  "enumerates order phones = (set (order phones) = set phones \<and> distinct (order phones))"

text \<open>The loop over \<^verbatim>\<open>unique_phones\<close>: the first candidate that does not start with \<^verbatim>\<open>01\<close>.\<close>

fun first_non_mobile :: "string list \<Rightarrow> string option" where
  "first_non_mobile [] = None"
| "first_non_mobile (phone # rest) =
     (if \<not> startswith phone ''01'' then Some phone else first_non_mobile rest)"

definition select_best_phone ::
    "(string list \<Rightarrow> string list) \<Rightarrow> string list \<Rightarrow> py_error + string option" where
  "select_best_phone order phones =
     (if phones = [] then Inr None
      else let unique_phones = order phones in
        case first_non_mobile unique_phones of
          Some phone \<Rightarrow> Inr (Some phone)
        | None \<Rightarrow> (case unique_phones of
                     [] \<Rightarrow> Inl IndexError
                   | phone # _ \<Rightarrow> Inr (Some phone)))"

section \<open>\<^verbatim>\<open>scrape_website\<close>\<close>

text \<open>
  \<^verbatim>\<open>session.get\<close>, \<^verbatim>\<open>raise_for_status\<close>, the HTML parser and \<^verbatim>\<open>search_contact_pages\<close> are the
  program's contact with the network. They are the parameter \<open>fetch\<close>: from the state of the
  world and a URL it gives the page, that is its text and the contact links found in it, or
  \<^verbatim>\<open>None\<close> when the request or the parser raises, and the next state of the world.
\<close>

record page =
  page_text :: string
  contact_links :: "string list"

type_synonym 'w fetch = "'w \<Rightarrow> string \<Rightarrow> page option \<times> 'w"

text \<open>\<^verbatim>\<open>s.replace(old, new)\<close> for a non-empty \<open>old\<close>; \<open>k\<close> counts the characters still to skip.\<close>

fun replace_from :: "string \<Rightarrow> string \<Rightarrow> nat \<Rightarrow> string \<Rightarrow> string" where
  "replace_from old new k [] = []"
| "replace_from old new k (c # cs) =
     (if 0 < k then replace_from old new (k - 1) cs
      else if startswith (c # cs) old then new @ replace_from old new (length old - 1) cs
      else c # replace_from old new 0 cs)"

definition py_replace :: "string \<Rightarrow> string \<Rightarrow> string \<Rightarrow> string" where
  "py_replace old new s = replace_from old new 0 s"

text \<open>
  The loop over \<^verbatim>\<open>contact_links[:3]\<close>: a page that cannot be fetched is skipped, the first
  page with a number ends the loop.
\<close>

fun contact_pages :: "'w fetch \<Rightarrow> 'w \<Rightarrow> string list \<Rightarrow> string list \<times> 'w" where
  "contact_pages fetch w [] = ([], w)"
| "contact_pages fetch w (contact_url # rest) =
     (case fetch w contact_url of
        (None, w') \<Rightarrow> contact_pages fetch w' rest
      | (Some pg, w') \<Rightarrow>
          (let contact_phones = extract_phone_from_text (page_text pg)
           in if contact_phones \<noteq> [] then (contact_phones, w')
              else contact_pages fetch w' rest))"

text \<open>
  The body of the \<^verbatim>\<open>try\<close> up to its \<^verbatim>\<open>return\<close>: the list \<^verbatim>\<open>all_phones\<close>, or \<^verbatim>\<open>None\<close> when the main
  page cannot be fetched.
\<close>

definition gather_phones :: "'w fetch \<Rightarrow> 'w \<Rightarrow> string \<Rightarrow> string list option \<times> 'w" where
  "gather_phones fetch w test_url =
     (case fetch w test_url of
        (None, w') \<Rightarrow> (None, w')
      | (Some pg, w') \<Rightarrow>
          (let all_phones = extract_phone_from_text (page_text pg)
           in if all_phones = []
              then (case contact_pages fetch w' (take 3 (contact_links pg)) of
                      (contact_phones, w'') \<Rightarrow> (Some (all_phones @ contact_phones), w''))
              else (Some all_phones, w')))"

definition test_url_of :: "string \<Rightarrow> string \<Rightarrow> string" where
  "test_url_of url protocol =
     (if startswith url ''https://'' then url
      else protocol @ py_replace ''http://'' [] (py_replace ''https://'' [] url))"

text \<open>
  The loop over the two protocols. An exception in the body, also one of
  \<^verbatim>\<open>select_best_phone\<close>, leads to the next protocol after \<^verbatim>\<open>https://\<close> and to \<^verbatim>\<open>None\<close> after
  \<^verbatim>\<open>http://\<close>.
\<close>

fun scrape_protocols ::
    "'w fetch \<Rightarrow> (string list \<Rightarrow> string list) \<Rightarrow> 'w \<Rightarrow> string \<Rightarrow> string list \<Rightarrow> string option \<times> 'w"
where
  "scrape_protocols fetch order w url [] = (None, w)"
| "scrape_protocols fetch order w url (protocol # rest) =
     (case gather_phones fetch w (test_url_of url protocol) of
        (None, w') \<Rightarrow>
          if protocol = ''https://'' then scrape_protocols fetch order w' url rest
          else (None, w')
      | (Some all_phones, w') \<Rightarrow>
          if all_phones = [] then (None, w')
          else (case select_best_phone order all_phones of
                  Inr r \<Rightarrow> (r, w')
                | Inl e \<Rightarrow>
                    if protocol = ''https://'' then scrape_protocols fetch order w' url rest
                    else (None, w')))"

definition with_protocol :: "string \<Rightarrow> string" where
  "with_protocol url =
     (if startswith url ''http://'' \<or> startswith url ''https://'' then url
      else ''https://'' @ url)"

definition scrape_website ::
    "'w fetch \<Rightarrow> (string list \<Rightarrow> string list) \<Rightarrow> 'w \<Rightarrow> string \<Rightarrow> string option \<times> 'w" where
  "scrape_website fetch order w url =
     scrape_protocols fetch order w (with_protocol url) [''https://'', ''http://'']"

section \<open>\<^verbatim>\<open>process_csv\<close> and \<^verbatim>\<open>save_results\<close>\<close>

text \<open>
  A CSV file is modelled by the table of its rows, each row the list of its fields: the
  encoding of a table as text by \<^verbatim>\<open>csv.writer\<close> and its decoding by \<^verbatim>\<open>csv.reader\<close> are not
  modelled. A row that \<^verbatim>\<open>csv.DictReader\<close> yields maps each field name to a string, or to
  \<^verbatim>\<open>None\<close> where the line is shorter than the header.
\<close>

type_synonym table = "string list list"

type_synonym row = "string \<rightharpoonup> string option"

definition save_results :: "table \<Rightarrow> table" where
  "save_results results = [''company_name'', ''website'', ''phone''] # results"

text \<open>
  \<^verbatim>\<open>csv.DictReader\<close>: the first row gives the field names, empty rows are skipped, a later of
  two equal field names wins.
\<close>

definition dict_reader :: "table \<Rightarrow> row list" where
  "dict_reader tbl =
     (case tbl of
        [] \<Rightarrow> []
      | fieldnames # rest \<Rightarrow>
          map (\<lambda>r. map_of (rev (zip fieldnames
                     (map Some r @ replicate (length fieldnames - length r) None))))
              (filter (\<lambda>r. r \<noteq> []) rest))"

text \<open>\<^verbatim>\<open>row.get(key, default)\<close>; the result \<^verbatim>\<open>None\<close> is Python's \<^verbatim>\<open>None\<close>.\<close>

definition py_get :: "row \<Rightarrow> string \<Rightarrow> string \<Rightarrow> string option" where
  "py_get row key dflt = (case row key of None \<Rightarrow> Some dflt | Some v \<Rightarrow> v)"

text \<open>
  The state of \<^verbatim>\<open>process_csv\<close>: the list \<^verbatim>\<open>results\<close> and the content of the output file, \<^verbatim>\<open>None\<close>
  as long as the run has not written it.
\<close>

record run =
  results :: table
  out_file :: "table option"

text \<open>
  The loop over the rows, \<open>i\<close> the index of the row. \<^verbatim>\<open>.strip()\<close> of \<^verbatim>\<open>None\<close> raises
  \<^verbatim>\<open>AttributeError\<close>, which ends the run.
\<close>

fun process_rows ::
    "'w fetch \<Rightarrow> (string list \<Rightarrow> string list) \<Rightarrow> nat \<Rightarrow> row list \<Rightarrow> run \<Rightarrow> 'w
       \<Rightarrow> py_error option \<times> run \<times> 'w"
where
  "process_rows fetch order i [] st w = (None, st, w)"
| "process_rows fetch order i (row # rows) st w =
     (case py_get row ''company_name'' [] of
        None \<Rightarrow> (Some AttributeError, st, w)
      | Some cn \<Rightarrow>
          (case py_get row ''website'' [] of
             None \<Rightarrow> (Some AttributeError, st, w)
           | Some ws \<Rightarrow>
               (let company_name = strip cn; website = strip ws
                in if company_name = [] \<or> website = []
                   then process_rows fetch order (Suc i) rows st w
                   else (case scrape_website fetch order w website of
                           (phone, w') \<Rightarrow>
                             (let st1 = st\<lparr>results := results st @
                                    [[company_name, website,
                                      (case phone of None \<Rightarrow> [] | Some p \<Rightarrow> p)]]\<rparr>;
                                  st2 = (if i mod 20 = 0
                                         then st1\<lparr>out_file := Some (save_results (results st1))\<rparr>
                                         else st1)
                              in process_rows fetch order (Suc i) rows st2 w')))))"

definition process_csv ::
    "'w fetch \<Rightarrow> (string list \<Rightarrow> string list) \<Rightarrow> 'w \<Rightarrow> row list \<Rightarrow> py_error option \<times> run \<times> 'w"
where
  "process_csv fetch order w rows =
     (case process_rows fetch order 1 rows \<lparr>results = [], out_file = None\<rparr> w of
        (Some e, st, w') \<Rightarrow> (Some e, st, w')
      | (None, st, w') \<Rightarrow> (None, st\<lparr>out_file := Some (save_results (results st))\<rparr>, w'))"

section \<open>Notions of the specification\<close>

text \<open>
  The candidates found for an organization: the list \<^verbatim>\<open>all_phones\<close> of the attempt of
  \<^verbatim>\<open>scrape_website\<close> that fetches the main page, and no candidate when no attempt does.
\<close>

fun candidates_from :: "'w fetch \<Rightarrow> 'w \<Rightarrow> string \<Rightarrow> string list \<Rightarrow> string list" where
  "candidates_from fetch w url [] = []"
| "candidates_from fetch w url (protocol # rest) =
     (case gather_phones fetch w (test_url_of url protocol) of
        (None, w') \<Rightarrow> if protocol = ''https://'' then candidates_from fetch w' url rest else []
      | (Some all_phones, w') \<Rightarrow> all_phones)"

definition org_candidates :: "'w fetch \<Rightarrow> 'w \<Rightarrow> string \<Rightarrow> string list" where
  "org_candidates fetch w website =
     candidates_from fetch w (with_protocol website) [''https://'', ''http://'']"

text \<open>
  The organizations of the input in the order of their rows, up to the first row that makes
  the run fail: name, website, and the state of the world when the website is scraped.
\<close>

fun organizations ::
    "'w fetch \<Rightarrow> (string list \<Rightarrow> string list) \<Rightarrow> 'w \<Rightarrow> row list \<Rightarrow> (string \<times> string \<times> 'w) list"
where
  "organizations fetch order w [] = []"
| "organizations fetch order w (row # rows) =
     (case (py_get row ''company_name'' [], py_get row ''website'' []) of
        (Some cn, Some ws) \<Rightarrow>
          if strip cn = [] \<or> strip ws = [] then organizations fetch order w rows
          else (strip cn, strip ws, w)
               # organizations fetch order (snd (scrape_website fetch order w (strip ws))) rows
      | _ \<Rightarrow> [])"

section \<open>Auxiliary notions for the proofs\<close>

text \<open>
  A text is \<open>squeezed\<close> when every whitespace character in it is a single blank that is
  followed by a character that is not whitespace, or by the end of the text.
\<close>

fun squeezed :: "string \<Rightarrow> bool" where
  "squeezed [] = True"
| "squeezed (c # cs) =
     ((isspace c \<longrightarrow> c = CHR '' '' \<and> (cs = [] \<or> \<not> isspace (hd cs))) \<and> squeezed cs)"

text \<open>A piece that cannot match the empty text.\<close>

fun consuming :: "piece \<Rightarrow> bool" where
  "consuming (Str w) = (w \<noteq> [])"
| "consuming (Alts ws) = list_all (\<lambda>w. w \<noteq> []) ws"
| "consuming (Rep a m mx) = (0 < m)"

text \<open>The row that \<^verbatim>\<open>process_csv\<close> appends for an organization.\<close>

definition result_row ::
    "'w fetch \<Rightarrow> (string list \<Rightarrow> string list) \<Rightarrow> string \<times> string \<times> 'w \<Rightarrow> string list" where
  "result_row fetch order org =
     (case org of (name, website, w0) \<Rightarrow>
        [name, website,
         (case fst (scrape_website fetch order w0 website) of None \<Rightarrow> [] | Some p \<Rightarrow> p)])"

section \<open>Facts about the matcher\<close>

lemma digit_not_space: "isdigit c \<Longrightarrow> \<not> isspace c"
  unfolding isdigit_def isspace_def Let_def by presburger

lemma amatch_spc: "amatch ic spc = isspace"
  by (rule ext) simp

lemma rep_min_hd: "0 < m \<Longrightarrow> rep ic a m mx s \<noteq> [] \<Longrightarrow> s \<noteq> [] \<and> amatch ic a (hd s)"
  by (cases s) (auto split: if_splits)

lemma rep_star_hd:
  "rep ic a 0 None s \<noteq> [] \<and> hd (rep ic a 0 None s) = dropWhile (amatch ic a) s"
  by (induction s) auto

lemma starts_hd: "starts False (a # w) s \<Longrightarrow> s \<noteq> [] \<and> hd s = a"
  by (cases s) (auto simp: ceq_def)

lemma rmatch_Str_hd: "rmatch False (Str (a # w) # ps) s \<noteq> [] \<Longrightarrow> s \<noteq> [] \<and> hd s = a"
  using starts_hd by (auto split: if_splits)

lemma rmatch_Rep_hd:
  assumes "0 < m" "rmatch ic (Rep a m mx # ps) s \<noteq> []"
  shows "s \<noteq> [] \<and> amatch ic a (hd s)"
proof -
  from assms(2) have "rep ic a m mx s \<noteq> []" by auto
  with assms(1) show ?thesis by (rule rep_min_hd)
qed

text \<open>
  A pattern whose first piece is consuming has no empty match. All patterns of the source are
  of this kind, so the scans never meet an empty match.
\<close>

lemma starts_length: "starts ic w s \<Longrightarrow> length w \<le> length s"
  by (induction ic w s rule: starts.induct) auto

lemma rep_length:
  "t \<in> set (rep ic a m mx s) \<Longrightarrow> length t \<le> length s \<and> (0 < m \<longrightarrow> length t < length s)"
proof (induction s arbitrary: m mx)
  case Nil
  then show ?case by (simp split: if_splits)
next
  case (Cons c cs)
  from Cons.prems consider
    "t \<in> set (rep ic a (m - 1) (map_option (\<lambda>n. n - 1) mx) cs)" | "m = 0" "t = c # cs"
    by (auto split: if_splits)
  then show ?case
  proof cases
    case 1
    from Cons.IH[OF 1] show ?thesis by simp
  next
    case 2
    then show ?thesis by simp
  qed
qed

lemma pmatch_length:
  "t \<in> set (pmatch ic p s) \<Longrightarrow> length t \<le> length s \<and> (consuming p \<longrightarrow> length t < length s)"
proof (cases p)
  case (Str w)
  assume "t \<in> set (pmatch ic p s)"
  with Str have "starts ic w s" "t = drop (length w) s" by (auto split: if_splits)
  with starts_length[of ic w s] Str show ?thesis by (cases w) auto
next
  case (Alts ws)
  assume "t \<in> set (pmatch ic p s)"
  with Alts obtain w where w: "w \<in> set ws" "starts ic w s" "t = drop (length w) s" by auto
  with starts_length[of ic w s] Alts show ?thesis by (cases w) (auto simp: list_all_iff)
next
  case (Rep a m mx)
  assume "t \<in> set (pmatch ic p s)"
  with Rep rep_length[of t ic a m mx s] show ?thesis by simp
qed

lemma rmatch_length: "t \<in> set (rmatch ic ps s) \<Longrightarrow> length t \<le> length s"
proof (induction ps arbitrary: s)
  case Nil
  then show ?case by simp
next
  case (Cons p ps)
  from Cons.prems obtain u where u: "u \<in> set (pmatch ic p s)" "t \<in> set (rmatch ic ps u)"
    by auto
  from Cons.IH[OF u(2)] pmatch_length[OF u(1)] show ?case by simp
qed

lemma rmatch_consumes:
  assumes "consuming p" "t \<in> set (rmatch ic (p # ps) s)"
  shows "length t < length s"
proof -
  from assms(2) obtain u where u: "u \<in> set (pmatch ic p s)" "t \<in> set (rmatch ic ps u)"
    by auto
  from rmatch_length[OF u(2)] pmatch_length[OF u(1)] assms(1) show ?thesis by simp
qed

lemma match_len_positive: "consuming p \<Longrightarrow> match_len ic (p # ps) s \<noteq> Some 0"
proof
  assume c: "consuming p" and z: "match_len ic (p # ps) s = Some 0"
  then obtain t ts where t: "rmatch ic (p # ps) s = t # ts" "length s - length t = 0"
    by (auto simp: match_len_def split: list.splits)
  then have "t \<in> set (rmatch ic (p # ps) s)" by simp
  from rmatch_consumes[OF c this] t(2) show False by simp
qed

lemma source_patterns_consume:
  "list_all (\<lambda>r. r \<noteq> [] \<and> consuming (hd r))
     (phone_patterns @ prefix_patterns
        @ [label_pattern, trunk_pattern, ws_pattern, non_phone_char])"
  by (simp add: phone_patterns_def prefix_patterns_def label_pattern_def trunk_pattern_def
      ws_pattern_def non_phone_char_def)

text \<open>Every pattern of the library starts with a literal that is not whitespace, or with a digit.\<close>

lemma phone_patterns_shape:
  "\<forall>p \<in> set phone_patterns.
     (\<exists>a w ps. p = Str (a # w) # ps \<and> \<not> isspace a) \<or> (\<exists>m mx ps. p = Rep dig m mx # ps \<and> 0 < m)"
  by (simp add: phone_patterns_def isspace_def)

lemma validates_hd:
  assumes "validates y"
  shows "y \<noteq> [] \<and> \<not> isspace (hd y)"
proof -
  from assms obtain p where p: "p \<in> set phone_patterns" and m: "rmatch False p y \<noteq> []"
    unfolding validates_def list_ex_iff re_match_def by blast
  from phone_patterns_shape p
  have "(\<exists>a w ps. p = Str (a # w) # ps \<and> \<not> isspace a)
        \<or> (\<exists>m mx ps. p = Rep dig m mx # ps \<and> 0 < m)"
    by blast
  then show ?thesis
  proof (elim disjE exE conjE)
    fix a w ps assume "p = Str (a # w) # ps" "\<not> isspace a"
    with m rmatch_Str_hd[of a w ps y] show ?thesis by simp
  next
    fix k mx ps assume "p = Rep dig k mx # ps" "0 < k"
    with m rmatch_Rep_hd[of k False dig mx ps y] have "y \<noteq> [] \<and> isdigit (hd y)" by simp
    then show ?thesis by (simp add: digit_not_space)
  qed
qed

section \<open>Facts about \<^verbatim>\<open>strip\<close> and the substitutions\<close>

lemma strip_id: "s \<noteq> [] \<Longrightarrow> \<not> isspace (hd s) \<Longrightarrow> \<not> isspace (last s) \<Longrightarrow> strip s = s"
proof -
  assume a: "s \<noteq> []" "\<not> isspace (hd s)" "\<not> isspace (last s)"
  then have 1: "dropWhile isspace s = s" by (cases s) auto
  from a have "rev s \<noteq> [] \<and> \<not> isspace (hd (rev s))" by (simp add: hd_rev)
  then have 2: "dropWhile isspace (rev s) = rev s" by (cases "rev s") auto
  show ?thesis by (simp add: strip_def 1 2)
qed

lemma strip_last: "strip s = [] \<or> \<not> isspace (last (strip s))"
proof -
  let ?t = "dropWhile isspace (rev (dropWhile isspace s))"
  have "?t = [] \<or> \<not> isspace (hd ?t)" using hd_dropWhile[of isspace] by blast
  then show ?thesis by (auto simp: strip_def last_rev)
qed

lemma sub_from_nonempty: "s \<noteq> [] \<Longrightarrow> repl \<noteq> [] \<Longrightarrow> sub_from ic r repl 0 s \<noteq> []"
  by (cases s) (auto split: option.splits nat.splits)

lemma sub_from_last:
  assumes "repl \<noteq> []" "\<not> isspace (last repl)"
  shows "s = [] \<or> \<not> isspace (last s) \<Longrightarrow>
         sub_from ic r repl k s = [] \<or> \<not> isspace (last (sub_from ic r repl k s))"
proof (induction s arbitrary: k)
  case Nil
  then show ?case by simp
next
  case (Cons c cs)
  have tl: "cs = [] \<or> \<not> isspace (last cs)" using Cons.prems by (cases cs) auto
  note IH = Cons.IH[OF tl]
  show ?case
  proof (cases "0 < k")
    case True
    then show ?thesis using IH[of "k - 1"] by simp
  next
    case False
    show ?thesis
    proof (cases "match_len ic r (c # cs)")
      case None
      then show ?thesis
        using False IH[of 0] Cons.prems sub_from_nonempty[OF _ assms(1), of cs ic r]
        by (cases cs) auto
    next
      case (Some n)
      show ?thesis
      proof (cases n)
        case 0
        then show ?thesis
          using Some False IH[of 0] Cons.prems sub_from_nonempty[OF _ assms(1), of cs ic r]
          by (cases cs) auto
      next
        case (Suc j)
        then show ?thesis using Some False IH[of j] assms
          by (cases "sub_from ic r repl j cs = []") auto
      qed
    qed
  qed
qed

text \<open>The match of \<^verbatim>\<open>\s+\<close> at a position covers the whole run of whitespace there.\<close>

lemma ws_match_len:
  "match_len False ws_pattern (c # cs) =
     (if isspace c then Some (Suc (length (takeWhile isspace cs))) else None)"
proof (cases "isspace c")
  case False
  then show ?thesis by (simp add: match_len_def ws_pattern_def)
next
  case True
  obtain t ts where r: "rep False spc 0 None cs = t # ts" and t: "t = dropWhile isspace cs"
    using rep_star_hd[of False spc cs]
    by (cases "rep False spc 0 None cs") (auto simp: amatch_spc)
  have "length cs - length (dropWhile isspace cs) = length (takeWhile isspace cs)"
    by (metis add_diff_cancel_right' length_append takeWhile_dropWhile_id)
  moreover have "length (dropWhile isspace cs) \<le> length cs" by (simp add: length_dropWhile_le)
  ultimately show ?thesis using True r t
    by (simp add: match_len_def ws_pattern_def Suc_diff_le)
qed

lemma ws_squeezed:
  "k \<le> length (takeWhile isspace s) \<Longrightarrow>
     squeezed (sub_from False ws_pattern '' '' k s) \<and>
     (k = length (takeWhile isspace s) \<longrightarrow>
        sub_from False ws_pattern '' '' k s = []
        \<or> \<not> isspace (hd (sub_from False ws_pattern '' '' k s)))"
proof (induction s arbitrary: k)
  case Nil
  then show ?case by simp
next
  case (Cons c cs)
  show ?case
  proof (cases "0 < k")
    case True
    with Cons.prems have c: "isspace c" by (auto split: if_splits)
    with Cons.prems True have "k - 1 \<le> length (takeWhile isspace cs)" by simp
    from Cons.IH[OF this] show ?thesis using True c by auto
  next
    case False
    then have k: "k = 0" by simp
    show ?thesis
    proof (cases "isspace c")
      case True
      from Cons.IH[of "length (takeWhile isspace cs)"] show ?thesis
        using k True by (simp add: ws_match_len)
    next
      case False
      from Cons.IH[of 0] show ?thesis using k False by (simp add: ws_match_len)
    qed
  qed
qed

lemma ws_fixed: "squeezed s \<Longrightarrow> sub_from False ws_pattern '' '' 0 s = s"
proof (induction s)
  case Nil
  then show ?case by simp
next
  case (Cons c cs)
  then have IH: "sub_from False ws_pattern '' '' 0 cs = cs" by simp
  show ?case
  proof (cases "isspace c")
    case False
    then show ?thesis using IH by (simp add: ws_match_len)
  next
    case True
    with Cons.prems have "c = CHR '' ''" and "cs = [] \<or> \<not> isspace (hd cs)" by auto
    then have "takeWhile isspace cs = []" by (cases cs) auto
    then show ?thesis using True IH \<open>c = CHR '' ''\<close> by (simp add: ws_match_len)
  qed
qed

lemma ws_last:
  "k \<le> length (takeWhile isspace s) \<Longrightarrow> s \<noteq> [] \<Longrightarrow> \<not> isspace (last s) \<Longrightarrow>
     sub_from False ws_pattern '' '' k s \<noteq> []
     \<and> \<not> isspace (last (sub_from False ws_pattern '' '' k s))"
proof (induction s arbitrary: k)
  case Nil
  then show ?case by simp
next
  case (Cons c cs)
  show ?case
  proof (cases "isspace c")
    case True
    with Cons.prems have cs: "cs \<noteq> []" "\<not> isspace (last cs)" by (auto split: if_splits)
    show ?thesis
    proof (cases "0 < k")
      case k: True
      with Cons.prems True have "k - 1 \<le> length (takeWhile isspace cs)" by simp
      from Cons.IH[OF this cs] show ?thesis using k by simp
    next
      case False
      from Cons.IH[of "length (takeWhile isspace cs)", OF _ cs] show ?thesis
        using False True by (simp add: ws_match_len)
    qed
  next
    case False
    with Cons.prems have k: "k = 0" by simp
    show ?thesis
    proof (cases "cs = []")
      case True
      then show ?thesis using k False by (simp add: ws_match_len)
    next
      case ne: False
      with Cons.prems have "\<not> isspace (last cs)" by simp
      from Cons.IH[of 0, OF _ ne this] show ?thesis using k False by (simp add: ws_match_len)
    qed
  qed
qed

section \<open>Facts about \<^verbatim>\<open>clean_phone_number\<close>\<close>

lemma clean_Some_iff:
  "clean_phone_number x = Some y \<longleftrightarrow>
     (\<exists>p. x = Some p \<and> p \<noteq> []
        \<and> y = collapse_ws (collapse_trunk (strip (strip_labels p))) \<and> validates y)"
  by (cases x) (auto simp: clean_phone_number_def Let_def)

text \<open>What \<^verbatim>\<open>clean_phone_number\<close> returns is trimmed and squeezed.\<close>

lemma clean_Some_shape:
  assumes "clean_phone_number x = Some y"
  shows "y \<noteq> [] \<and> validates y \<and> strip y = y \<and> collapse_ws y = y"
proof -
  from assms obtain p where
    y: "y = collapse_ws (collapse_trunk (strip (strip_labels p)))" and v: "validates y"
    by (auto simp: clean_Some_iff)
  let ?t = "strip (strip_labels p)"
  let ?z = "collapse_trunk ?t"
  from validates_hd[OF v] have ne: "y \<noteq> []" and h: "\<not> isspace (hd y)" by simp_all
  have "?t = [] \<or> \<not> isspace (last ?t)" by (rule strip_last)
  then have z: "?z = [] \<or> \<not> isspace (last ?z)"
    unfolding collapse_trunk_def re_sub_def
    by (intro sub_from_last) (simp_all add: isspace_def)
  from ne y have "?z \<noteq> []" by (auto simp: collapse_ws_def re_sub_def)
  with z have "\<not> isspace (last ?z)" by simp
  with ws_last[of 0 ?z] \<open>?z \<noteq> []\<close> y have l: "\<not> isspace (last y)"
    by (simp add: collapse_ws_def re_sub_def)
  from ws_squeezed[of 0 ?z] y have "squeezed y" by (simp add: collapse_ws_def re_sub_def)
  then have "collapse_ws y = y" by (simp add: collapse_ws_def re_sub_def ws_fixed)
  with ne v h l show ?thesis by (simp add: strip_id)
qed

section \<open>Facts about \<^verbatim>\<open>extract_phone_from_text\<close> and \<^verbatim>\<open>select_best_phone\<close>\<close>

lemma keep_valid_member:
  "r \<in> set (keep_valid acc phone) \<Longrightarrow>
     r \<in> set acc \<or> clean_phone_number (Some phone) = Some r"
  by (auto simp: keep_valid_def split: option.splits if_splits)

lemma foldl_keep_valid_member:
  "r \<in> set (foldl keep_valid acc phones) \<Longrightarrow>
     r \<in> set acc \<or> (\<exists>phone \<in> set phones. clean_phone_number (Some phone) = Some r)"
proof (induction phones arbitrary: acc)
  case Nil
  then show ?case by simp
next
  case (Cons a phones)
  from Cons.IH[of "keep_valid acc a"] Cons.prems keep_valid_member[of r acc a]
  show ?case by auto
qed

lemma first_non_mobile_Some:
  "first_non_mobile xs = Some r \<Longrightarrow> r \<in> set xs \<and> \<not> startswith r ''01''"
  by (induction xs) (auto split: if_splits)

lemma first_non_mobile_None:
  "first_non_mobile xs = None \<Longrightarrow> \<forall>x \<in> set xs. startswith x ''01''"
  by (induction xs) (auto split: if_splits)

lemma first_non_mobile_split:
  "\<forall>x \<in> set xs. startswith x ''01'' \<Longrightarrow> \<not> startswith p ''01'' \<Longrightarrow>
     first_non_mobile (xs @ p # ys) = Some p"
  by (induction xs) auto

lemma select_cases:
  assumes e: "enumerates order ps" and ne: "ps \<noteq> []"
  shows "\<exists>r. select_best_phone order ps = Inr (Some r) \<and> r \<in> set ps
           \<and> (startswith r ''01'' \<longrightarrow> (\<forall>x \<in> set ps. startswith x ''01''))"
proof (cases "first_non_mobile (order ps)")
  case None
  from e ne have "order ps \<noteq> []" by (auto simp: enumerates_def)
  then obtain q qs where q: "order ps = q # qs" by (cases "order ps") auto
  with None ne have "select_best_phone order ps = Inr (Some q)"
    by (simp add: select_best_phone_def)
  moreover from q e have "q \<in> set ps" by (auto simp: enumerates_def)
  moreover from first_non_mobile_None[OF None] e have "\<forall>x \<in> set ps. startswith x ''01''"
    by (simp add: enumerates_def)
  ultimately show ?thesis by blast
next
  case (Some r)
  with ne have "select_best_phone order ps = Inr (Some r)"
    by (simp add: select_best_phone_def)
  moreover from first_non_mobile_Some[OF Some] e have "r \<in> set ps" "\<not> startswith r ''01''"
    by (simp_all add: enumerates_def)
  ultimately show ?thesis by blast
qed

section \<open>The normalizer\<close>

text \<open>
  C7. \<^verbatim>\<open>clean_phone_number\<close> returns \<^verbatim>\<open>None\<close>, not an empty string, both for the argument
  \<^verbatim>\<open>None\<close> and for the empty string.
\<close>

theorem clean_absent_on_empty:
  "clean_phone_number None = None \<and> clean_phone_number (Some []) = None"
  by (simp add: clean_phone_number_def)

text \<open>
  C2, as amended. Cleaning \<^verbatim>\<open>+49(0)721-91225-35\<close> replaces \<^verbatim>\<open>+49(0)\<close> by \<^verbatim>\<open>+49\<close> and inserts
  nothing: the result is \<^verbatim>\<open>+49721-91225-35\<close>, and this text matches the first pattern of the
  library, the international form with area code.
\<close>

theorem clean_trunk_example:
  "clean_phone_number (Some ''+49(0)721-91225-35'') = Some ''+49721-91225-35''
   \<and> re_match False (hd phone_patterns) ''+49721-91225-35''"
  by code_simp

text \<open>The claim as the specification states it, with a blank after \<^verbatim>\<open>+49\<close>, does not hold.\<close>

theorem clean_trunk_example_counterexample:
  "clean_phone_number (Some ''+49(0)721-91225-35'') \<noteq> Some ''+49 721-91225-35''"
  by code_simp

text \<open>
  C5, as amended. Cleaning twice gives the same as cleaning once when the first result is
  absent, and when the first result \<open>y\<close> is left unchanged by the removal of labels and by
  the replacement of \<^verbatim>\<open>+49(0)\<close>, that is, when \<open>y\<close> holds no further label and no further
  \<^verbatim>\<open>+49(0)\<close>.
\<close>

theorem clean_twice_when_stable:
  "(clean_phone_number x = None
      \<longrightarrow> clean_phone_number (clean_phone_number x) = clean_phone_number x)
   \<and> (clean_phone_number x = Some y \<and> strip_labels y = y \<and> collapse_trunk y = y
      \<longrightarrow> clean_phone_number (clean_phone_number x) = clean_phone_number x)"
proof (intro conjI impI)
  assume "clean_phone_number x = None"
  then show "clean_phone_number (clean_phone_number x) = clean_phone_number x"
    by (simp add: clean_phone_number_def)
next
  assume a: "clean_phone_number x = Some y \<and> strip_labels y = y \<and> collapse_trunk y = y"
  then have "y \<noteq> [] \<and> validates y \<and> strip y = y \<and> collapse_ws y = y"
    using clean_Some_shape[of x y] by blast
  with a have "clean_phone_number (Some y) = Some y"
    by (simp add: clean_phone_number_def)
  with a show "clean_phone_number (clean_phone_number x) = clean_phone_number x" by simp
qed

theorem clean_twice_when_stable_witness:
  "clean_phone_number (Some ''hello'') = None
   \<and> clean_phone_number (clean_phone_number (Some ''hello'')) = None
   \<and> clean_phone_number (Some '' tel: +49 (0)89 123  4567 '') = Some ''+4989 123 4567''
   \<and> strip_labels ''+4989 123 4567'' = ''+4989 123 4567''
   \<and> collapse_trunk ''+4989 123 4567'' = ''+4989 123 4567''
   \<and> clean_phone_number (clean_phone_number (Some '' tel: +49 (0)89 123  4567 ''))
       = Some ''+4989 123 4567''"
proof -
  have 1: "clean_phone_number (Some ''hello'') = None" by code_simp
  have 2: "clean_phone_number (Some '' tel: +49 (0)89 123  4567 '') = Some ''+4989 123 4567''"
    by code_simp
  have 3: "strip_labels ''+4989 123 4567'' = ''+4989 123 4567''" by code_simp
  have 4: "collapse_trunk ''+4989 123 4567'' = ''+4989 123 4567''" by code_simp
  from clean_twice_when_stable[of "Some ''hello''"] 1
  have 5: "clean_phone_number (clean_phone_number (Some ''hello'')) = None" by simp
  from clean_twice_when_stable[of "Some '' tel: +49 (0)89 123  4567 ''" "''+4989 123 4567''"] 2 3 4
  have 6: "clean_phone_number (clean_phone_number (Some '' tel: +49 (0)89 123  4567 ''))
       = Some ''+4989 123 4567''" by simp
  from 1 2 3 4 5 6 show ?thesis by simp
qed

text \<open>
  Cleaning is not idempotent in general: removing \<^verbatim>\<open>tel:\<close> from \<^verbatim>\<open>ttel:el:\<close> leaves a new
  \<^verbatim>\<open>tel:\<close>, which only the second pass removes.
\<close>

theorem clean_twice_counterexample:
  "clean_phone_number (Some ''089-123-4567 ttel:el:'') = Some ''089-123-4567 tel:''
   \<and> clean_phone_number (clean_phone_number (Some ''089-123-4567 ttel:el:''))
       = Some ''089-123-4567''"
  by code_simp

text \<open>
  C6, as amended. \<^verbatim>\<open>clean_phone_number\<close> has a result for every text. For a text that none of
  its four transformations changes, the result is the text itself when its beginning matches
  a pattern of the library, and \<^verbatim>\<open>None\<close> otherwise.
\<close>

theorem clean_untransformed:
  "strip_labels x = x \<and> strip x = x \<and> collapse_trunk x = x \<and> collapse_ws x = x
     \<longrightarrow> clean_phone_number (Some x) = (if validates x then Some x else None)"
proof
  assume a: "strip_labels x = x \<and> strip x = x \<and> collapse_trunk x = x \<and> collapse_ws x = x"
  show "clean_phone_number (Some x) = (if validates x then Some x else None)"
  proof (cases "x = []")
    case True
    with validates_hd[of x] show ?thesis by (auto simp: clean_phone_number_def)
  next
    case False
    with a show ?thesis by (simp add: clean_phone_number_def)
  qed
qed

theorem clean_untransformed_witness:
  "strip_labels ''089-123-4567'' = ''089-123-4567'' \<and> strip ''089-123-4567'' = ''089-123-4567''
   \<and> collapse_trunk ''089-123-4567'' = ''089-123-4567''
   \<and> collapse_ws ''089-123-4567'' = ''089-123-4567''
   \<and> validates ''089-123-4567''
   \<and> clean_phone_number (Some ''089-123-4567'') = Some ''089-123-4567''"
proof -
  have h: "strip_labels ''089-123-4567'' = ''089-123-4567'' \<and> strip ''089-123-4567'' = ''089-123-4567''
   \<and> collapse_trunk ''089-123-4567'' = ''089-123-4567''
   \<and> collapse_ws ''089-123-4567'' = ''089-123-4567''" by code_simp
  have v: "validates ''089-123-4567''" by code_simp
  from clean_untransformed[of "''089-123-4567''"] h v show ?thesis by simp
qed

text \<open>
  The claim as the specification states it fails: no transformation changes \<^verbatim>\<open>hello\<close>, and
  the result is \<^verbatim>\<open>None\<close>, not \<^verbatim>\<open>hello\<close>.
\<close>

theorem clean_untransformed_counterexample:
  "strip_labels ''hello'' = ''hello'' \<and> strip ''hello'' = ''hello''
   \<and> collapse_trunk ''hello'' = ''hello'' \<and> collapse_ws ''hello'' = ''hello''
   \<and> clean_phone_number (Some ''hello'') = None
   \<and> clean_phone_number (Some ''hello'') \<noteq> Some ''hello''"
  by code_simp

section \<open>The extractor\<close>

text \<open>
  C4. Every text that \<^verbatim>\<open>extract_phone_from_text\<close> returns is what \<^verbatim>\<open>clean_phone_number\<close>
  made of a candidate of the labeled pass or of the structural pass, and its beginning matches
  a pattern of the library.
\<close>

theorem extract_results_validate:
  "r \<in> set (extract_phone_from_text text) \<Longrightarrow>
     validates r
     \<and> (\<exists>phone. phone \<in> set (labeled_candidates text @ structural_candidates text)
           \<and> clean_phone_number (Some phone) = Some r)"
proof -
  assume "r \<in> set (extract_phone_from_text text)"
  with foldl_keep_valid_member[of r "[]" "labeled_candidates text @ structural_candidates text"]
  obtain phone where p: "phone \<in> set (labeled_candidates text @ structural_candidates text)"
    and c: "clean_phone_number (Some phone) = Some r"
    unfolding extract_phone_from_text_def by auto
  from c have "validates r" using clean_Some_iff[of "Some phone" r] by blast
  with p c show ?thesis by blast
qed

theorem extract_results_validate_witness:
  "''0151 1234567'' \<in> set (extract_phone_from_text ''Mobil: 0151 1234567'')
   \<and> validates ''0151 1234567''"
proof -
  have h: "''0151 1234567'' \<in> set (extract_phone_from_text ''Mobil: 0151 1234567'')"
    by code_simp
  from extract_results_validate[OF h] h show ?thesis by simp
qed

text \<open>
  C1. The specification excludes a number that stands next to the word \<^verbatim>\<open>fax\<close>. The source
  looks for \<^verbatim>\<open>fax\<close> in the matched number itself, where no letter can occur: on the text of
  the specification's own scenario both numbers are returned.
\<close>

theorem extract_keeps_fax_number:
  "extract_phone_from_text ''Telefon: 089-123-4567, Fax: 089-123-9999''
     = [''089-123-4567'', ''089-123-9999'']"
  by code_simp

section \<open>The selector\<close>

text \<open>
  C3. Without candidates \<^verbatim>\<open>select_best_phone\<close> returns \<^verbatim>\<open>None\<close>. When a candidate does not
  start with \<^verbatim>\<open>01\<close>, the result does not start with \<^verbatim>\<open>01\<close>, whatever the order in which the
  set of candidates is listed; of \<^verbatim>\<open>089 1234567\<close> and \<^verbatim>\<open>0151 1234567\<close> it returns the first.
\<close>

theorem select_prefers_landline:
  "select_best_phone order [] = Inr None
   \<and> (enumerates order phones \<and> (\<exists>p \<in> set phones. \<not> startswith p ''01'')
        \<longrightarrow> (\<exists>r. select_best_phone order phones = Inr (Some r) \<and> \<not> startswith r ''01''))
   \<and> (enumerates order [''089 1234567'', ''0151 1234567'']
        \<longrightarrow> select_best_phone order [''089 1234567'', ''0151 1234567'']
              = Inr (Some ''089 1234567''))"
proof (intro conjI impI)
  show "select_best_phone order [] = Inr None" by (simp add: select_best_phone_def)
next
  assume a: "enumerates order phones \<and> (\<exists>p \<in> set phones. \<not> startswith p ''01'')"
  then have "phones \<noteq> []" by auto
  with a select_cases[of order phones]
  show "\<exists>r. select_best_phone order phones = Inr (Some r) \<and> \<not> startswith r ''01''" by blast
next
  let ?ps = "[''089 1234567'', ''0151 1234567'']"
  assume e: "enumerates order ?ps"
  have l: "\<not> startswith ''089 1234567'' ''01''" by (simp add: startswith_def)
  have m: "startswith ''0151 1234567'' ''01''" by (simp add: startswith_def)
  from select_cases[OF e] obtain r where
    r: "select_best_phone order ?ps = Inr (Some r)" "r \<in> set ?ps"
       "startswith r ''01'' \<longrightarrow> (\<forall>x \<in> set ?ps. startswith x ''01'')" by blast
  from r(3) l have "\<not> startswith r ''01''" by auto
  with r(2) m have "r = ''089 1234567''" by auto
  with r(1) show "select_best_phone order ?ps = Inr (Some ''089 1234567'')" by simp
qed

theorem select_prefers_landline_witness:
  "enumerates rev [''089 1234567'', ''0151 1234567'']
   \<and> \<not> startswith ''089 1234567'' ''01''
   \<and> rev [''089 1234567'', ''0151 1234567''] = [''0151 1234567'', ''089 1234567'']
   \<and> select_best_phone rev [''089 1234567'', ''0151 1234567''] = Inr (Some ''089 1234567'')"
proof -
  have e: "enumerates rev [''089 1234567'', ''0151 1234567'']" by (auto simp: enumerates_def)
  have n: "\<not> startswith ''089 1234567'' ''01''" by (simp add: startswith_def)
  from select_prefers_landline[of rev "[''089 1234567'', ''0151 1234567'']"] e
  have "select_best_phone rev [''089 1234567'', ''0151 1234567''] = Inr (Some ''089 1234567'')"
    by blast
  with e n show ?thesis by simp
qed

text \<open>
  C9. For a list of candidates that is not empty, \<^verbatim>\<open>select_best_phone\<close> returns one of its
  elements, unchanged.
\<close>

theorem select_returns_member:
  "enumerates order phones \<Longrightarrow> phones \<noteq> [] \<Longrightarrow>
     \<exists>r. select_best_phone order phones = Inr (Some r) \<and> r \<in> set phones"
  using select_cases[of order phones] by blast

theorem select_returns_member_witness:
  "enumerates remdups [''0151 1234567'', ''0151 1234567'', ''0170 7654321'']
   \<and> [''0151 1234567'', ''0151 1234567'', ''0170 7654321''] \<noteq> []
   \<and> select_best_phone remdups [''0151 1234567'', ''0151 1234567'', ''0170 7654321'']
       = Inr (Some ''0151 1234567'')"
proof -
  have e: "enumerates remdups [''0151 1234567'', ''0151 1234567'', ''0170 7654321'']"
    by (simp add: enumerates_def)
  have ne: "[''0151 1234567'', ''0151 1234567'', ''0170 7654321''] \<noteq> []" by simp
  from select_returns_member[OF e ne] e show ?thesis
    by (simp add: select_best_phone_def startswith_def)
qed

text \<open>
  C10. A candidate counts as mobile exactly when it starts with the two characters \<^verbatim>\<open>01\<close>.
  \<^verbatim>\<open>select_best_phone\<close> returns the first candidate, in the order in which the set is listed,
  that does not start with \<^verbatim>\<open>01\<close>. A mobile number written \<^verbatim>\<open>+49 151 ...\<close> does not start with
  \<^verbatim>\<open>01\<close>; listed before a landline number, it is the one returned.
\<close>

theorem select_mobile_is_prefix_01:
  "(startswith p ''01'' \<longleftrightarrow> (\<exists>rest. p = ''01'' @ rest))
   \<and> (phones \<noteq> [] \<and> order phones = xs @ q # ys \<and> (\<forall>x \<in> set xs. startswith x ''01'')
        \<and> \<not> startswith q ''01'' \<longrightarrow> select_best_phone order phones = Inr (Some q))
   \<and> \<not> startswith ''+49 151 1234567'' ''01''
   \<and> (order [''+49 151 1234567'', ''089 1234567''] = [''+49 151 1234567'', ''089 1234567'']
        \<longrightarrow> select_best_phone order [''+49 151 1234567'', ''089 1234567'']
              = Inr (Some ''+49 151 1234567''))"
proof (intro conjI impI)
  show "startswith p ''01'' \<longleftrightarrow> (\<exists>rest. p = ''01'' @ rest)"
  proof
    assume "startswith p ''01''"
    then have "take (length ''01'') p = ''01''" by (simp only: startswith_def)
    then have "p = ''01'' @ drop (length ''01'') p"
      using append_take_drop_id[of "length ''01''" p] by simp
    then show "\<exists>rest. p = ''01'' @ rest" ..
  next
    assume "\<exists>rest. p = ''01'' @ rest"
    then show "startswith p ''01''" by (auto simp: startswith_def)
  qed
next
  assume "phones \<noteq> [] \<and> order phones = xs @ q # ys \<and> (\<forall>x \<in> set xs. startswith x ''01'')
        \<and> \<not> startswith q ''01''"
  then show "select_best_phone order phones = Inr (Some q)"
    using first_non_mobile_split[of xs q ys] by (simp add: select_best_phone_def)
next
  show "\<not> startswith ''+49 151 1234567'' ''01''" by (simp add: startswith_def)
next
  assume "order [''+49 151 1234567'', ''089 1234567''] = [''+49 151 1234567'', ''089 1234567'']"
  then show "select_best_phone order [''+49 151 1234567'', ''089 1234567'']
              = Inr (Some ''+49 151 1234567'')"
    by (simp add: select_best_phone_def startswith_def)
qed

theorem select_mobile_is_prefix_01_witness:
  "[''0151 1234567'', ''+49 151 1234567'', ''089 1234567''] \<noteq> []
   \<and> remdups [''0151 1234567'', ''+49 151 1234567'', ''089 1234567'']
       = [''0151 1234567''] @ ''+49 151 1234567'' # [''089 1234567'']
   \<and> startswith ''0151 1234567'' ''01''
   \<and> \<not> startswith ''+49 151 1234567'' ''01''
   \<and> select_best_phone remdups [''0151 1234567'', ''+49 151 1234567'', ''089 1234567'']
       = Inr (Some ''+49 151 1234567'')"
proof -
  have 1: "remdups [''0151 1234567'', ''+49 151 1234567'', ''089 1234567'']
       = [''0151 1234567''] @ ''+49 151 1234567'' # [''089 1234567'']" by simp
  have 2: "\<forall>x \<in> set [''0151 1234567'']. startswith x ''01''" by (simp add: startswith_def)
  have 3: "\<not> startswith ''+49 151 1234567'' ''01''" by (simp add: startswith_def)
  have 4: "[''0151 1234567'', ''+49 151 1234567'', ''089 1234567''] \<noteq> []" by simp
  from select_mobile_is_prefix_01[of "''0151 1234567''"
      "[''0151 1234567'', ''+49 151 1234567'', ''089 1234567'']"
      remdups "[''0151 1234567'']" "''+49 151 1234567''" "[''089 1234567'']"]
  have "[''0151 1234567'', ''+49 151 1234567'', ''089 1234567''] \<noteq> []
        \<and> remdups [''0151 1234567'', ''+49 151 1234567'', ''089 1234567'']
            = [''0151 1234567''] @ ''+49 151 1234567'' # [''089 1234567'']
        \<and> (\<forall>x \<in> set [''0151 1234567'']. startswith x ''01'')
        \<and> \<not> startswith ''+49 151 1234567'' ''01''
        \<longrightarrow> select_best_phone remdups [''0151 1234567'', ''+49 151 1234567'', ''089 1234567'']
            = Inr (Some ''+49 151 1234567'')"
    by (elim conjE)
  with 1 2 3 4 have 5: "select_best_phone remdups [''0151 1234567'', ''+49 151 1234567'', ''089 1234567'']
            = Inr (Some ''+49 151 1234567'')" by blast
  from 2 have 6: "startswith ''0151 1234567'' ''01''" by simp
  from 1 3 4 5 6 show ?thesis by blast
qed

section \<open>Facts about \<^verbatim>\<open>scrape_website\<close> and \<^verbatim>\<open>process_csv\<close>\<close>

lemma extract_validates: "r \<in> set (extract_phone_from_text text) \<Longrightarrow> validates r"
  using foldl_keep_valid_member[of r "[]" "labeled_candidates text @ structural_candidates text"]
    clean_Some_iff
  unfolding extract_phone_from_text_def by fastforce

lemma contact_pages_validate:
  "contact_pages fetch w us = (ph, w') \<Longrightarrow> \<forall>r \<in> set ph. validates r"
proof (induction us arbitrary: w)
  case Nil
  then show ?case by simp
next
  case (Cons u us)
  obtain pg w1 where f: "fetch w u = (pg, w1)" by (cases "fetch w u")
  show ?case
  proof (cases pg)
    case None
    with f Cons show ?thesis by simp
  next
    case (Some p)
    show ?thesis
    proof (cases "extract_phone_from_text (page_text p) = []")
      case True
      with f Some Cons show ?thesis by simp
    next
      case False
      with f Some Cons.prems have "ph = extract_phone_from_text (page_text p)" by simp
      then show ?thesis using extract_validates by blast
    qed
  qed
qed

lemma gather_phones_validate:
  assumes "gather_phones fetch w u = (Some ph, w')"
  shows "\<forall>r \<in> set ph. validates r"
proof -
  obtain pg w1 where f: "fetch w u = (pg, w1)" by (cases "fetch w u")
  show ?thesis
  proof (cases pg)
    case None
    with f assms show ?thesis by (simp add: gather_phones_def)
  next
    case (Some p)
    show ?thesis
    proof (cases "extract_phone_from_text (page_text p) = []")
      case True
      obtain cp w2 where c: "contact_pages fetch w1 (take 3 (contact_links p)) = (cp, w2)"
        by (cases "contact_pages fetch w1 (take 3 (contact_links p))")
      with f Some True assms have "ph = cp" by (simp add: gather_phones_def)
      with contact_pages_validate[OF c] show ?thesis by simp
    next
      case False
      with f Some assms have "ph = extract_phone_from_text (page_text p)"
        by (simp add: gather_phones_def)
      then show ?thesis using extract_validates by blast
    qed
  qed
qed

lemma scrape_protocols_candidates:
  assumes O: "\<forall>ps. enumerates order ps"
  shows "(candidates_from fetch w url protos = []
            \<longrightarrow> fst (scrape_protocols fetch order w url protos) = None)
         \<and> (candidates_from fetch w url protos \<noteq> []
            \<longrightarrow> (\<exists>r. fst (scrape_protocols fetch order w url protos) = Some r
                  \<and> select_best_phone order (candidates_from fetch w url protos) = Inr (Some r)
                  \<and> r \<noteq> []))"
proof (induction protos arbitrary: w)
  case Nil
  then show ?case by simp
next
  case (Cons protocol rest)
  obtain g w1 where g: "gather_phones fetch w (test_url_of url protocol) = (g, w1)"
    by (cases "gather_phones fetch w (test_url_of url protocol)")
  show ?case
  proof (cases g)
    case None
    with g Cons.IH[of w1] show ?thesis by simp
  next
    case (Some ph)
    show ?thesis
    proof (cases "ph = []")
      case True
      with g Some show ?thesis by simp
    next
      case False
      from O have "enumerates order ph" by simp
      from select_cases[OF this False] obtain r where
        r: "select_best_phone order ph = Inr (Some r)" "r \<in> set ph" by blast
      from gather_phones_validate[OF g[unfolded Some]] r(2) have "validates r" by blast
      then have "r \<noteq> []" using validates_hd by blast
      with g Some False r show ?thesis by simp
    qed
  qed
qed

lemma scrape_website_candidates:
  assumes O: "\<forall>ps. enumerates order ps"
  shows "(org_candidates fetch w website = []
            \<longrightarrow> fst (scrape_website fetch order w website) = None)
         \<and> (org_candidates fetch w website \<noteq> []
            \<longrightarrow> (\<exists>r. fst (scrape_website fetch order w website) = Some r
                  \<and> select_best_phone order (org_candidates fetch w website) = Inr (Some r)
                  \<and> r \<noteq> []))"
  unfolding org_candidates_def scrape_website_def
  by (rule scrape_protocols_candidates[OF O])


lemma process_rows_inv:
  "process_rows fetch order i rows st w = (err, st', w') \<Longrightarrow>
   \<exists>n m. n \<le> length (organizations fetch order w rows) \<and> m \<le> n
     \<and> results st' = results st
          @ map (result_row fetch order) (take n (organizations fetch order w rows))
     \<and> (err = None \<longrightarrow> n = length (organizations fetch order w rows))
     \<and> (out_file st' = out_file st
        \<or> out_file st' = Some (save_results (results st
              @ map (result_row fetch order) (take m (organizations fetch order w rows)))))"
proof (induction rows arbitrary: i st w)
  case Nil
  then show ?case by auto
next
  case (Cons row rows)
  let ?R = "result_row fetch order"
  show ?case
  proof (cases "py_get row ''company_name'' []")
    case None
    with Cons.prems have "st' = st" "organizations fetch order w (row # rows) = []" by simp_all
    then show ?thesis by auto
  next
    case cn: (Some cn)
    show ?thesis
    proof (cases "py_get row ''website'' []")
      case None
      with cn Cons.prems have "st' = st" "organizations fetch order w (row # rows) = []"
        by simp_all
      then show ?thesis by auto
    next
      case ws: (Some ws)
      show ?thesis
      proof (cases "strip cn = [] \<or> strip ws = []")
        case True
        with cn ws Cons.prems have p: "process_rows fetch order (Suc i) rows st w = (err, st', w')"
          by (auto simp: Let_def)
        from True cn ws have "organizations fetch order w (row # rows) = organizations fetch order w rows"
          by auto
        with Cons.IH[OF p] show ?thesis by simp
      next
        case False
        obtain phone w1 where sc: "scrape_website fetch order w (strip ws) = (phone, w1)"
          by (cases "scrape_website fetch order w (strip ws)")
        let ?T' = "organizations fetch order w1 rows"
        let ?o = "(strip cn, strip ws, w)"
        have T: "organizations fetch order w (row # rows) = ?o # ?T'"
          using False cn ws sc by simp
        have R: "?R ?o = [strip cn, strip ws, (case phone of None \<Rightarrow> [] | Some p \<Rightarrow> p)]"
          using sc by (simp add: result_row_def)
        define st1 where "st1 = st\<lparr>results := results st @ [?R ?o]\<rparr>"
        define st2 where "st2 = (if i mod 20 = 0
                                 then st1\<lparr>out_file := Some (save_results (results st1))\<rparr> else st1)"
        have p: "process_rows fetch order (Suc i) rows st2 w1 = (err, st', w')"
          using Cons.prems False cn ws sc R
          by (cases "i mod 20 = 0") (simp_all add: Let_def st1_def st2_def)
        have r2: "results st2 = results st @ [?R ?o]" by (simp add: st1_def st2_def)
        have o2: "out_file st2 = out_file st
                  \<or> out_file st2 = Some (save_results (results st @ [?R ?o]))"
          by (simp add: st1_def st2_def)
        from Cons.IH[OF p] obtain n m where
          nm: "n \<le> length ?T'" "m \<le> n"
              "results st' = results st2 @ map ?R (take n ?T')"
              "err = None \<longrightarrow> n = length ?T'"
              "out_file st' = out_file st2
               \<or> out_file st' = Some (save_results (results st2 @ map ?R (take m ?T')))"
          by blast
        have a: "results st' = results st @ map ?R (take (Suc n) (?o # ?T'))"
          using nm(3) r2 by simp
        have b: "out_file st' = out_file st
                 \<or> out_file st' = Some (save_results (results st @ map ?R (take (Suc 0) (?o # ?T'))))
                 \<or> out_file st' = Some (save_results (results st @ map ?R (take (Suc m) (?o # ?T'))))"
          using nm(5) o2 r2 by auto
        from b consider "out_file st' = out_file st"
          | "out_file st' = Some (save_results (results st @ map ?R (take (Suc 0) (?o # ?T'))))"
          | "out_file st' = Some (save_results (results st @ map ?R (take (Suc m) (?o # ?T'))))"
          by blast
        then show ?thesis
        proof cases
          case 1
          show ?thesis unfolding T
            by (rule exI[of _ "Suc n"], rule exI[of _ "Suc m"]) (use nm a 1 in simp)
        next
          case 2
          show ?thesis unfolding T
            by (rule exI[of _ "Suc n"], rule exI[of _ "Suc 0"]) (use nm a 2 in simp)
        next
          case 3
          show ?thesis unfolding T
            by (rule exI[of _ "Suc n"], rule exI[of _ "Suc m"]) (use nm a 3 in simp)
        qed
      qed
    qed
  qed
qed

lemma process_csv_table:
  assumes "process_csv fetch order w rows = (err, st, w')" "out_file st = Some tbl"
  shows "\<exists>m. m \<le> length (organizations fetch order w rows)
           \<and> (err = None \<longrightarrow> m = length (organizations fetch order w rows))
           \<and> tbl = save_results (map (result_row fetch order)
                      (take m (organizations fetch order w rows)))"
proof -
  let ?T = "organizations fetch order w rows"
  let ?R = "result_row fetch order"
  obtain e st0 w0 where
    p: "process_rows fetch order 1 rows \<lparr>results = [], out_file = None\<rparr> w = (e, st0, w0)"
    by (cases "process_rows fetch order 1 rows \<lparr>results = [], out_file = None\<rparr> w") auto
  from process_rows_inv[OF p] obtain n m where
    nm: "n \<le> length ?T" "m \<le> n" "results st0 = map ?R (take n ?T)"
        "e = None \<longrightarrow> n = length ?T"
        "out_file st0 = None \<or> out_file st0 = Some (save_results (map ?R (take m ?T)))"
    by auto
  show ?thesis
  proof (cases e)
    case None
    with p assms have "err = None" "tbl = save_results (results st0)"
      by (auto simp: process_csv_def)
    with nm None have "tbl = save_results (map ?R (take n ?T))" "n = length ?T" by simp_all
    then show ?thesis by blast
  next
    case (Some x)
    with p assms have "err = Some x" "st = st0" by (auto simp: process_csv_def)
    with nm assms(2) have t: "tbl = save_results (map ?R (take m ?T))" by auto
    from nm have "m \<le> length ?T" by simp
    with t \<open>err = Some x\<close> show ?thesis by blast
  qed
qed

lemma result_rows_nonempty:
  "filter (\<lambda>r. r \<noteq> []) (map (result_row fetch order) orgs) = map (result_row fetch order) orgs"
  by (induction orgs) (auto simp: result_row_def)

lemma dict_reader_length:
  "length (dict_reader (save_results (map (result_row fetch order) orgs))) = length orgs"
  by (simp add: dict_reader_def save_results_def result_rows_nonempty)

lemma dict_reader_saved:
  assumes "i < length orgs" "orgs ! i = (name, website, w0)"
  shows "(dict_reader (save_results (map (result_row fetch order) orgs)) ! i) ''company_name''
           = Some (Some name)
         \<and> (dict_reader (save_results (map (result_row fetch order) orgs)) ! i) ''website''
           = Some (Some website)
         \<and> (dict_reader (save_results (map (result_row fetch order) orgs)) ! i) ''phone''
           = Some (Some (case fst (scrape_website fetch order w0 website) of
                           None \<Rightarrow> [] | Some p \<Rightarrow> p))"
  using assms
  by (simp add: dict_reader_def save_results_def result_rows_nonempty result_row_def)

section \<open>The batch driver\<close>

text \<open>
  C8. Whenever the output file has been written, by a checkpoint or by the final save, reading
  it back with \<^verbatim>\<open>csv.DictReader\<close> gives the header \<^verbatim>\<open>company_name\<close>, \<^verbatim>\<open>website\<close>, \<^verbatim>\<open>phone\<close> and
  one row for each organization processed so far, all of them after a run without error, in
  the order of the input. The field \<^verbatim>\<open>phone\<close> of a row is empty exactly when no candidate was
  found for the organization, and is the number that \<^verbatim>\<open>select_best_phone\<close> chose among the
  candidates otherwise.
\<close>

theorem written_table_read_back:
  assumes O: "\<forall>ps. enumerates order ps"
    and P: "process_csv fetch order w rows = (err, st, w')"
    and F: "out_file st = Some tbl"
  shows "\<exists>n. n \<le> length (organizations fetch order w rows)
     \<and> (err = None \<longrightarrow> n = length (organizations fetch order w rows))
     \<and> hd tbl = [''company_name'', ''website'', ''phone'']
     \<and> length (dict_reader tbl) = n
     \<and> (\<forall>i<n. \<exists>name website w0 phone.
          organizations fetch order w rows ! i = (name, website, w0)
          \<and> (dict_reader tbl ! i) ''company_name'' = Some (Some name)
          \<and> (dict_reader tbl ! i) ''website'' = Some (Some website)
          \<and> (dict_reader tbl ! i) ''phone'' = Some (Some phone)
          \<and> (phone = [] \<longleftrightarrow> org_candidates fetch w0 website = [])
          \<and> (org_candidates fetch w0 website \<noteq> []
               \<longrightarrow> select_best_phone order (org_candidates fetch w0 website) = Inr (Some phone)))"
proof -
  let ?T = "organizations fetch order w rows"
  from process_csv_table[OF P F] obtain m where
    m: "m \<le> length ?T" "err = None \<longrightarrow> m = length ?T"
       "tbl = save_results (map (result_row fetch order) (take m ?T))"
    by blast
  have h: "hd tbl = [''company_name'', ''website'', ''phone'']"
    using m(3) by (simp add: save_results_def)
  have l: "length (dict_reader tbl) = m"
    using m(1,3) by (simp add: dict_reader_length)
  have r: "\<exists>name website w0 phone.
          ?T ! i = (name, website, w0)
          \<and> (dict_reader tbl ! i) ''company_name'' = Some (Some name)
          \<and> (dict_reader tbl ! i) ''website'' = Some (Some website)
          \<and> (dict_reader tbl ! i) ''phone'' = Some (Some phone)
          \<and> (phone = [] \<longleftrightarrow> org_candidates fetch w0 website = [])
          \<and> (org_candidates fetch w0 website \<noteq> []
               \<longrightarrow> select_best_phone order (org_candidates fetch w0 website) = Inr (Some phone))"
    if i: "i < m" for i
  proof -
    obtain name website w0 where o: "?T ! i = (name, website, w0)" by (cases "?T ! i")
    let ?phone = "case fst (scrape_website fetch order w0 website) of None \<Rightarrow> [] | Some p \<Rightarrow> p"
    from i m(1) have il: "i < length (take m ?T)" and ti: "take m ?T ! i = (name, website, w0)"
      using o by simp_all
    from dict_reader_saved[OF il ti, of fetch order] m(3)
    have d: "(dict_reader tbl ! i) ''company_name'' = Some (Some name)"
            "(dict_reader tbl ! i) ''website'' = Some (Some website)"
            "(dict_reader tbl ! i) ''phone'' = Some (Some ?phone)"
      by simp_all
    from scrape_website_candidates[OF O, of fetch w0 website]
    have c: "(?phone = [] \<longleftrightarrow> org_candidates fetch w0 website = [])"
            "org_candidates fetch w0 website \<noteq> []
               \<longrightarrow> select_best_phone order (org_candidates fetch w0 website) = Inr (Some ?phone)"
      by auto
    from o d c show ?thesis by blast
  qed
  from m(1,2) h l r show ?thesis by blast
qed

theorem written_table_read_back_witness:
  "(\<forall>ps. enumerates remdups ps)
   \<and> process_csv
        (\<lambda>w url. (if url = ''https://a.de''
                   then Some \<lparr>page_text = ''Tel: 030 9999999'', contact_links = []\<rparr>
                   else None, Suc w))
        remdups (0::nat)
        [[''company_name'' \<mapsto> Some ''A GmbH'', ''website'' \<mapsto> Some ''a.de''],
         [''company_name'' \<mapsto> Some ''B AG'', ''website'' \<mapsto> Some ''b.de'']]
      = (None,
         \<lparr>results = [[''A GmbH'', ''a.de'', ''030 9999999''], [''B AG'', ''b.de'', []]],
          out_file = Some [[''company_name'', ''website'', ''phone''],
                           [''A GmbH'', ''a.de'', ''030 9999999''], [''B AG'', ''b.de'', []]]\<rparr>,
         3)
   \<and> length (dict_reader [[''company_name'', ''website'', ''phone''],
                           [''A GmbH'', ''a.de'', ''030 9999999''], [''B AG'', ''b.de'', []]]) = 2"
proof -
  let ?F = "\<lambda>(w::nat) url. (if url = ''https://a.de''
                   then Some \<lparr>page_text = ''Tel: 030 9999999'', contact_links = []\<rparr>
                   else None, Suc w)"
  let ?rows = "[[''company_name'' \<mapsto> Some ''A GmbH'', ''website'' \<mapsto> Some ''a.de''],
         [''company_name'' \<mapsto> Some ''B AG'', ''website'' \<mapsto> Some ''b.de'']]"
  let ?tbl = "[[''company_name'', ''website'', ''phone''],
                           [''A GmbH'', ''a.de'', ''030 9999999''], [''B AG'', ''b.de'', []]]"
  let ?st = "\<lparr>results = [[''A GmbH'', ''a.de'', ''030 9999999''], [''B AG'', ''b.de'', []]],
          out_file = Some ?tbl\<rparr>"
  have h1: "\<forall>ps. enumerates remdups ps" by (simp add: enumerates_def)
  have h2: "process_csv ?F remdups 0 ?rows = (None, ?st, 3)" by code_simp
  have h3: "out_file ?st = Some ?tbl" by simp
  have n: "length (organizations ?F remdups 0 ?rows) = 2" by code_simp
  from written_table_read_back[OF h1 h2 h3] n
  have "length (dict_reader ?tbl) = 2" by auto
  with h1 h2 show ?thesis by blast
qed


end
